theory Spec2Isabelle
  imports Main "HOL-Library.Sublist"
begin

section \<open>Type generation for route parameters: \<open>typegen/index.ts\<close>\<close>

text \<open>
  A shallow embedding of \<open>packages/react-router-dev/typegen/index.ts\<close>. The functions
  of that file (\<open>run\<close>, \<open>watch\<close> and its change handler, \<open>createContext\<close>,
  \<open>writeAll\<close>, \<open>register\<close>, \<open>virtual\<close>) are translated from the source. What the file
  imports is either a library (\<open>node:fs\<close>, \<open>pathe\<close>, \<open>dedent\<close>, \<open>picocolors\<close>, Babel),
  modelled at its interface below, or a sibling module of the repository that is not
  embedded here (\<open>./generate\<close>, \<open>./paths\<close>, \<open>./route\<close>, \<open>../config/config\<close>), taken as
  a parameter in the record \<open>deps\<close>; \<open>./params\<close> is modelled from the specification.
\<close>

subsection \<open>Data model\<close>

text \<open>
  A route manifest entry: the source reads \<open>route.id\<close> (here \<open>route_id\<close>) and
  \<open>route.path\<close> only. The path segment is optional (absent for layout and index routes).
\<close>

record route =
  route_id :: string
  path :: "string option"

text \<open>
  \<open>ctx.config.routes\<close> is a JavaScript object from route id to entry. It is kept as the
  list of its own properties in enumeration order, which is the order \<open>Object.values\<close>
  walks.
\<close>

type_synonym route_manifest = "(string \<times> route) list"

record future_config =
  unstable_middleware :: bool

record config =
  routes :: route_manifest
  future :: future_config

text \<open>A result of the configuration loader: \<open>{ok: true, value} | {ok: false, error}\<close>.\<close>

datatype 'a result = Ok 'a | Err string

text \<open>
  The configuration loader, as far as this file uses it: \<open>getConfig()\<close> yields the result
  of the initial load. Change notifications are the arguments of the handler below.
\<close>

record config_loader =
  getConfig :: "config result"

record Context =
  configLoader :: config_loader
  rootDirectory :: string
  config :: config

subsection \<open>Errors, paths and the file system\<close>

text \<open>
  A path is the list of its components below the file-system root, so that
  \<open>Path.join(dir, name)\<close> appends a component and \<open>Path.dirname\<close> drops the last one.
\<close>

type_synonym fpath = "string list"

definition Path_join :: "fpath \<Rightarrow> string \<Rightarrow> fpath" where
  "Path_join dir name = dir @ [name]"

definition Path_dirname :: "fpath \<Rightarrow> fpath" where
  "Path_dirname p = butlast p"

text \<open>
  Everything the code can throw: \<open>new Error(message)\<close>, raised by \<open>createContext\<close> or by
  a collaborator, and the failures of the \<open>node:fs\<close> calls.
\<close>

datatype error =
    Error string
  | ENOENT fpath
  | ENOTDIR fpath
  | EISDIR fpath
  | EEXIST fpath

datatype node = File string | Dir

type_synonym filesystem = "fpath \<rightharpoonup> node"

datatype fs_call =
    RmSync fpath
  | MkdirSync fpath
  | WriteFileSync fpath string

text \<open>Logger calls: \<open>logger.info(pc.green(msg), opts)\<close> and \<open>logger.error(pc.red(msg), opts)\<close>.\<close>

datatype styled = Green string | Red string

record log_options =
  timestamp :: bool
  clear :: bool

datatype log_call = LogInfo styled log_options | LogError styled log_options

text \<open>
  The world the code acts on: the file system, the sequence of \<open>node:fs\<close> calls issued
  so far (each call is recorded when it is made, whether or not it succeeds), and the
  sequence of logger calls.
\<close>

record world =
  fs :: filesystem
  fs_calls :: "fs_call list"
  logged :: "log_call list"

type_synonym 'a io = "world \<Rightarrow> (error + 'a) \<times> world"

definition return_io :: "'a \<Rightarrow> 'a io" where
  "return_io x = (\<lambda>w. (Inr x, w))"

definition throw_io :: "error \<Rightarrow> 'a io" where
  "throw_io e = (\<lambda>w. (Inl e, w))"

definition bind_io :: "'a io \<Rightarrow> ('a \<Rightarrow> 'b io) \<Rightarrow> 'b io" where
  "bind_io m f = (\<lambda>w. case m w of (Inl e, w') \<Rightarrow> (Inl e, w') | (Inr x, w') \<Rightarrow> f x w')"

definition then_io :: "unit io \<Rightarrow> 'b io \<Rightarrow> 'b io" where
  "then_io m k = bind_io m (\<lambda>_. k)"

text \<open>A pure computation that may throw, run inside the world.\<close>

definition lift_io :: "error + 'a \<Rightarrow> 'a io" where
  "lift_io r = (case r of Inl e \<Rightarrow> throw_io e | Inr x \<Rightarrow> return_io x)"

text \<open>\<open>xs.forEach(f)\<close> where \<open>f\<close> may throw: the first exception ends the walk.\<close>

fun forEach_io :: "('a \<Rightarrow> unit io) \<Rightarrow> 'a list \<Rightarrow> unit io" where
  "forEach_io f [] = return_io ()"
| "forEach_io f (x # xs) = then_io (f x) (forEach_io f xs)"

text \<open>
  The root directory always exists and is a directory; any other path is what the file
  system says it is.
\<close>

definition is_dir :: "filesystem \<Rightarrow> fpath \<Rightarrow> bool" where
  "is_dir s p = (p = [] \<or> s p = Some Dir)"

definition is_file :: "filesystem \<Rightarrow> fpath \<Rightarrow> bool" where
  "is_file s p = (p \<noteq> [] \<and> (case s p of Some (File c) \<Rightarrow> True | _ \<Rightarrow> False))"

text \<open>
  \<open>fs.rmSync(dir, {recursive: true, force: true})\<close>: removes \<open>dir\<close> and everything below
  it; with \<open>force\<close>, a path that does not exist is not an error.
\<close>

definition rm_tree :: "fpath \<Rightarrow> filesystem \<Rightarrow> filesystem" where
  "rm_tree dir s = (\<lambda>p. if prefix dir p then None else s p)"

text \<open>
  \<open>fs.mkdirSync(dir, {recursive: true})\<close>: creates \<open>dir\<close> and every missing ancestor.
  It fails when an ancestor is a file (\<open>ENOTDIR\<close>) or \<open>dir\<close> itself is one (\<open>EEXIST\<close>);
  a directory that is already there is not an error.
\<close>

definition mk_dirs :: "fpath \<Rightarrow> filesystem \<Rightarrow> filesystem" where
  "mk_dirs dir s = (\<lambda>p. if p \<noteq> [] \<and> prefix p dir then Some Dir else s p)"

definition mkdir_check :: "fpath \<Rightarrow> filesystem \<Rightarrow> error option" where
  "mkdir_check dir s =
     (case filter (is_file s) (prefixes dir) of
        [] \<Rightarrow> None
      | p # _ \<Rightarrow> if p = dir then Some (EEXIST dir) else Some (ENOTDIR dir))"

text \<open>
  \<open>fs.writeFileSync(file, content)\<close>: creates or replaces the file. It fails when
  \<open>file\<close> names a directory (\<open>EISDIR\<close>) or when the parent is not an existing directory
  (\<open>ENOTDIR\<close> if it is a file, \<open>ENOENT\<close> if it is missing).
\<close>

definition write_check :: "fpath \<Rightarrow> filesystem \<Rightarrow> error option" where
  "write_check file s =
     (if is_dir s file then Some (EISDIR file)
      else if is_file s (Path_dirname file) then Some (ENOTDIR file)
      else if \<not> is_dir s (Path_dirname file) then Some (ENOENT file)
      else None)"

text \<open>The effect of one \<open>node:fs\<close> call on the file system.\<close>

fun fs_step :: "fs_call \<Rightarrow> filesystem \<Rightarrow> error + filesystem" where
  "fs_step (RmSync dir) s = Inr (rm_tree dir s)"
| "fs_step (MkdirSync dir) s =
     (case mkdir_check dir s of Some e \<Rightarrow> Inl e | None \<Rightarrow> Inr (mk_dirs dir s))"
| "fs_step (WriteFileSync file content) s =
     (case write_check file s of Some e \<Rightarrow> Inl e | None \<Rightarrow> Inr (s(file \<mapsto> File content)))"

text \<open>A call is recorded, then it either throws or changes the file system.\<close>

definition fs_call_io :: "fs_call \<Rightarrow> unit io" where
  "fs_call_io c = (\<lambda>w.
     let w' = w\<lparr>fs_calls := fs_calls w @ [c]\<rparr> in
     case fs_step c (fs w) of
       Inl e \<Rightarrow> (Inl e, w')
     | Inr s' \<Rightarrow> (Inr (), w'\<lparr>fs := s'\<rparr>))"

definition rmSync :: "fpath \<Rightarrow> unit io" where
  "rmSync dir = fs_call_io (RmSync dir)"

definition mkdirSync :: "fpath \<Rightarrow> unit io" where
  "mkdirSync dir = fs_call_io (MkdirSync dir)"

definition writeFileSync :: "fpath \<Rightarrow> string \<Rightarrow> unit io" where
  "writeFileSync file content = fs_call_io (WriteFileSync file content)"

text \<open>Replaying a sequence of calls on a file system; the first failure ends it.\<close>

fun run_calls :: "fs_call list \<Rightarrow> filesystem \<Rightarrow> error + filesystem" where
  "run_calls [] s = Inr s"
| "run_calls (c # cs) s = (case fs_step c s of Inl e \<Rightarrow> Inl e | Inr s' \<Rightarrow> run_calls cs s')"

text \<open>The optional logger: \<open>logger?.info(...)\<close> does nothing when there is none.\<close>

datatype logger = Logger

definition log_opts :: log_options where
  "log_opts = \<lparr>timestamp = True, clear = True\<rparr>"

definition logger_info :: "logger option \<Rightarrow> styled \<Rightarrow> unit io" where
  "logger_info lg msg = (\<lambda>w.
     case lg of
       None \<Rightarrow> (Inr (), w)
     | Some _ \<Rightarrow> (Inr (), w\<lparr>logged := logged w @ [LogInfo msg log_opts]\<rparr>))"

definition logger_error :: "logger option \<Rightarrow> styled \<Rightarrow> unit io" where
  "logger_error lg msg = (\<lambda>w.
     case lg of
       None \<Rightarrow> (Inr (), w)
     | Some _ \<Rightarrow> (Inr (), w\<lparr>logged := logged w @ [LogError msg log_opts]\<rparr>))"

subsection \<open>Strings and the declaration syntax tree\<close>

definition newline :: string where
  "newline = [CHR 0x0A]"

text \<open>\<open>Array.prototype.join\<close>.\<close>

fun Array_join :: "string \<Rightarrow> string list \<Rightarrow> string" where
  "Array_join sep [] = []"
| "Array_join sep [x] = x"
| "Array_join sep (x # y # ys) = x @ sep @ Array_join sep (y # ys)"

text \<open>How a template literal prints a boolean.\<close>

definition String_of_bool :: "bool \<Rightarrow> string" where
  "String_of_bool b = (if b then ''true'' else ''false'')"

text \<open>
  The part of the Babel syntax tree that \<open>register\<close> builds with \<open>t.tsTypeAliasDeclaration\<close>,
  \<open>t.tsTypeLiteral\<close>, \<open>t.tsPropertySignature\<close>, \<open>t.stringLiteral\<close> and \<open>t.tsStringKeyword\<close>.
  A property signature carries its key, the annotated type and the \<open>optional\<close> flag
  (unset, hence false, unless assigned).
\<close>

datatype ts_type =
    TSStringKeyword
  | TSTypeLiteral (members: "ts_member list")
and ts_member =
    TSPropertySignature (key: string) (annotation: ts_type) (optional: bool)

datatype ts_decl = TSTypeAliasDeclaration (alias_name: string) (alias_type: ts_type)

text \<open>
  A JavaScript \<open>Set\<close> of strings, kept as the list of its elements in insertion order:
  \<open>add\<close> of an element that is already there changes nothing.
\<close>

definition Set_add :: "string \<Rightarrow> string list \<Rightarrow> string list" where
  "Set_add x xs = (if x \<in> set xs then xs else xs @ [x])"

text \<open>
  A JavaScript object used as a dictionary from names to booleans, kept as the list of its
  properties in insertion order: assigning to a key that is there replaces the value in
  place, assigning to a new key appends it.
\<close>

fun Object_set :: "string \<Rightarrow> bool \<Rightarrow> (string \<times> bool) list \<Rightarrow> (string \<times> bool) list" where
  "Object_set k v [] = [(k, v)]"
| "Object_set k v ((k', v') # kvs) =
     (if k' = k then (k, v) # kvs else (k', v') # Object_set k v kvs)"

definition Object_values :: "(string \<times> 'a) list \<Rightarrow> 'a list" where
  "Object_values obj = map snd obj"

subsection \<open>Collaborators\<close>

text \<open>
  The sibling modules the file imports, as parameters: \<open>createConfigLoader\<close> of
  \<open>../config/config\<close> (root directory, mode, watch flag), \<open>generate\<close> of \<open>./generate\<close>,
  \<open>getTypesDir\<close> and \<open>getTypesPath\<close> of \<open>./paths\<close>, \<open>Route.lineage\<close> and
  \<open>Route.fullpath\<close> of \<open>./route\<close>, and the printer \<open>Babel.generate(...).code\<close>.
  \<open>generate\<close> and \<open>lineage\<close> may throw.
\<close>

record deps =
  createConfigLoader :: "string \<Rightarrow> string \<Rightarrow> bool \<Rightarrow> config_loader"
  generate :: "Context \<Rightarrow> route \<Rightarrow> error + string"
  getTypesDir :: "Context \<Rightarrow> fpath"
  getTypesPath :: "Context \<Rightarrow> route \<Rightarrow> fpath"
  lineage :: "route_manifest \<Rightarrow> route \<Rightarrow> error + route list"
  fullpath :: "route list \<Rightarrow> string"
  Babel_generate :: "ts_decl \<Rightarrow> string"

subsection \<open>The path pattern parser\<close>

text \<open>\<open>String.prototype.split\<close> on a one-character separator.\<close>

fun String_split :: "char \<Rightarrow> string \<Rightarrow> string list" where
  "String_split sep [] = [] # []"
| "String_split sep (c # cs) =
     (if c = sep then [] # String_split sep cs
      else (case String_split sep cs of seg # segs \<Rightarrow> (c # seg) # segs | [] \<Rightarrow> [c] # []))"

text \<open>
  Modelled from the spec: \<open>Params.parse\<close> of \<open>./params\<close>, a sibling module that is not
  embedded from source. The specification (section 4.1) gives its contract and grammar, applied to each
  \<open>/\<close>-delimited segment of the full path in path order:
  \<^item> a segment beginning with \<open>:\<close> declares a dynamic parameter named by the remainder of
    the segment, minus a trailing \<open>?\<close>; a trailing \<open>?\<close> marks that occurrence optional;
  \<^item> a segment equal to \<open>*\<close> declares a parameter named \<open>*\<close>, always required;
  \<^item> static and empty segments contribute nothing;
  \<^item> the result lists each name once, in order of first appearance, with the required
    status of its last occurrence.
\<close>

definition is_dynamic :: "string \<Rightarrow> bool" where
  "is_dynamic seg = (case seg of c # _ \<Rightarrow> c = CHR '':'' | [] \<Rightarrow> False)"

text \<open>Modelled from the spec: a trailing \<open>?\<close> on a dynamic segment marks that
  occurrence optional.\<close>

definition is_optional :: "string \<Rightarrow> bool" where
  "is_optional seg = (tl seg \<noteq> [] \<and> last (tl seg) = CHR ''?'')"

text \<open>Modelled from the spec: the name is the remainder of the segment after \<open>:\<close>,
  minus a trailing \<open>?\<close>.\<close>

definition param_name :: "string \<Rightarrow> string" where
  "param_name seg = (if is_optional seg then butlast (tl seg) else tl seg)"

text \<open>Modelled from the spec: a segment equal to \<open>*\<close> is a splat.\<close>

definition is_splat :: "string \<Rightarrow> bool" where
  "is_splat seg = (seg = ''*'')"

text \<open>Modelled from the spec: what one segment declares, if anything: the parameter
  name and whether it is required; a splat is named \<open>*\<close> and always required.\<close>

definition segment_decl :: "string \<Rightarrow> (string \<times> bool) option" where
  "segment_decl seg =
     (if is_dynamic seg then Some (param_name seg, \<not> is_optional seg)
      else if is_splat seg then Some (''*'', True)
      else None)"

text \<open>Modelled from the spec: scanning one segment; assigning to a name that is there
  keeps its place and replaces its status, so the last occurrence wins.\<close>

definition parse_segment :: "(string \<times> bool) list \<Rightarrow> string \<Rightarrow> (string \<times> bool) list" where
  "parse_segment acc seg =
     (case segment_decl seg of
        None \<Rightarrow> acc
      | Some (name, required) \<Rightarrow> Object_set name required acc)"

text \<open>Modelled from the spec: \<open>parse(fullPath)\<close> scans the \<open>/\<close>-delimited segments in
  path order, starting from the empty mapping. No input makes it fail.\<close>

definition parse :: "string \<Rightarrow> (string \<times> bool) list" where
  "parse fullPath = foldl parse_segment [] (String_split (CHR ''/'') fullPath)"

subsection \<open>The global param map generator\<close>

text \<open>
  The \<open>dedent\<close> template at the head of \<open>register\<close>: the common indentation and the
  first and last line breaks are removed, and the middleware flag is printed in place.
\<close>

definition register_template :: "Context \<Rightarrow> string" where
  \<open>register_template ctx = Array_join newline
     [''import "react-router";'',
      [],
      ''declare module "react-router" {'',
      ''  interface Register {'',
      ''    params: Params;'',
      ''  }'',
      [],
      ''  interface Future {'',
      ''    unstable_middleware: '' @ String_of_bool (unstable_middleware (future (config ctx))),
      ''  }'',
      ''}'']\<close>

text \<open>\<open>!route.path\<close>: the segment is absent or the empty string.\<close>

definition no_path :: "route \<Rightarrow> bool" where
  "no_path route = (case path route of None \<Rightarrow> True | Some p \<Rightarrow> p = [])"

text \<open>
  The loop that fills \<open>fullpaths\<close>: a route that is neither the root nor has a path
  segment is skipped (the early \<open>return\<close>); for any other route the lineage is resolved,
  which may throw, and its full path is added to the set.
\<close>

fun collect_fullpaths :: "deps \<Rightarrow> Context \<Rightarrow> route list \<Rightarrow> string list \<Rightarrow> error + string list" where
  "collect_fullpaths D ctx [] fullpaths = Inr fullpaths"
| "collect_fullpaths D ctx (route # rest) fullpaths =
     (if route_id route \<noteq> ''root'' \<and> no_path route then collect_fullpaths D ctx rest fullpaths
      else (case lineage D (routes (config ctx)) route of
              Inl e \<Rightarrow> Inl e
            | Inr lin \<Rightarrow> collect_fullpaths D ctx rest (Set_add (fullpath D lin) fullpaths)))"

definition register_fullpaths :: "deps \<Rightarrow> Context \<Rightarrow> error + string list" where
  "register_fullpaths D ctx =
     collect_fullpaths D ctx (Object_values (routes (config ctx))) []"

text \<open>The property built for one parameter of a full path.\<close>

definition param_property :: "string \<times> bool \<Rightarrow> ts_member" where
  "param_property = (\<lambda>(param, isRequired).
     TSPropertySignature param TSStringKeyword (\<not> isRequired))"

text \<open>The property built for one full path: its key is the full path itself.\<close>

definition fullpath_property :: "string \<Rightarrow> ts_member" where
  "fullpath_property fp =
     TSPropertySignature fp (TSTypeLiteral (map param_property (parse fp))) False"

definition typeParams :: "string list \<Rightarrow> ts_decl" where
  "typeParams fullpaths =
     TSTypeAliasDeclaration ''Params'' (TSTypeLiteral (map fullpath_property fullpaths))"

definition register :: "deps \<Rightarrow> Context \<Rightarrow> error + string" where
  "register D ctx =
     (case register_fullpaths D ctx of
        Inl e \<Rightarrow> Inl e
      | Inr fullpaths \<Rightarrow>
          Inr (Array_join (newline @ newline)
                 [register_template ctx, Babel_generate D (typeParams fullpaths)]))"

subsection \<open>The output writer\<close>

text \<open>The static ambient-module declaration, a \<open>dedent\<close> template without placeholders.\<close>

definition virtual :: string where
  \<open>virtual = Array_join newline
     [''declare module "virtual:react-router/server-build" {'',
      ''  import { ServerBuild } from "react-router";'',
      ''  export const assets: ServerBuild["assets"];'',
      ''  export const assetsBuildDirectory: ServerBuild["assetsBuildDirectory"];'',
      ''  export const basename: ServerBuild["basename"];'',
      ''  export const entry: ServerBuild["entry"];'',
      ''  export const future: ServerBuild["future"];'',
      ''  export const isSpaMode: ServerBuild["isSpaMode"];'',
      ''  export const prerender: ServerBuild["prerender"];'',
      ''  export const publicPath: ServerBuild["publicPath"];'',
      ''  export const routeDiscovery: ServerBuild["routeDiscovery"];'',
      ''  export const routes: ServerBuild["routes"];'',
      ''  export const ssr: ServerBuild["ssr"];'',
      ''  export const unstable_getCriticalCss: ServerBuild["unstable_getCriticalCss"];'',
      ''}'']\<close>

text \<open>
  The body of the loop of \<open>writeAll\<close> for one route: the declaration is generated (which
  may throw) before the directory is made and the file written.
\<close>

definition write_route :: "deps \<Rightarrow> Context \<Rightarrow> route \<Rightarrow> unit io" where
  "write_route D ctx route =
     (let typesPath = getTypesPath D ctx route in
      bind_io (lift_io (generate D ctx route)) (\<lambda>content.
      then_io (mkdirSync (Path_dirname typesPath))
              (writeFileSync typesPath content)))"

definition writeAll :: "deps \<Rightarrow> Context \<Rightarrow> unit io" where
  "writeAll D ctx =
     (let typegenDir = getTypesDir D ctx in
      then_io (rmSync typegenDir)
     (then_io (forEach_io (write_route D ctx) (Object_values (routes (config ctx))))
     (then_io (bind_io (lift_io (register D ctx))
                 (writeFileSync (Path_join typegenDir ''+register.ts'')))
              (writeFileSync (Path_join typegenDir ''+virtual.d.ts'') virtual))))"

subsection \<open>Startup and the watch handler\<close>

definition createContext :: "deps \<Rightarrow> string \<Rightarrow> bool \<Rightarrow> string \<Rightarrow> error + Context" where
  "createContext D rootDir watchFlag mode =
     (let loader = createConfigLoader D rootDir mode watchFlag;
          configResult = getConfig loader
      in case configResult of
           Err e \<Rightarrow> Inl (Error e)
         | Ok cfg \<Rightarrow> Inr \<lparr>configLoader = loader, rootDirectory = rootDir, config = cfg\<rparr>)"

definition run :: "deps \<Rightarrow> string \<Rightarrow> string \<Rightarrow> unit io" where
  "run D rootDir mode =
     bind_io (lift_io (createContext D rootDir False mode)) (\<lambda>ctx. writeAll D ctx)"

text \<open>
  What a change notification carries: \<open>{ result, configChanged, routeConfigChanged }\<close>.
\<close>

record change_event =
  result :: "config result"
  configChanged :: bool
  routeConfigChanged :: bool

text \<open>
  The handler that \<open>watch\<close> registers with \<open>ctx.configLoader.onChange\<close>. It closes over
  \<open>ctx\<close> and assigns to \<open>ctx.config\<close>, so the context is passed in and returned next to
  the world.
\<close>

definition onChange :: "deps \<Rightarrow> logger option \<Rightarrow> change_event \<Rightarrow> Context \<Rightarrow> world
    \<Rightarrow> (error + unit) \<times> Context \<times> world" where
  "onChange D lg ev ctx w =
     (case result ev of
        Err e \<Rightarrow>
          (case logger_error lg (Red e) w of (r, w') \<Rightarrow> (r, ctx, w'))
      | Ok v \<Rightarrow>
          (let ctx' = ctx\<lparr>config := v\<rparr> in
           if configChanged ev \<or> routeConfigChanged ev then
             (case then_io (writeAll D ctx') (logger_info lg (Green ''regenerated types'')) w of
                (r, w') \<Rightarrow> (r, ctx', w'))
           else (Inr (), ctx', w)))"

text \<open>
  \<open>watch\<close> up to the point where it returns the watcher: the context is created, the
  types are written once and the success is logged. The result is the context that the
  handler and the watcher share.
\<close>

definition watch :: "deps \<Rightarrow> string \<Rightarrow> string \<Rightarrow> logger option \<Rightarrow> Context io" where
  "watch D rootDir mode lg =
     bind_io (lift_io (createContext D rootDir True mode)) (\<lambda>ctx.
     then_io (writeAll D ctx)
    (then_io (logger_info lg (Green ''generated types''))
             (return_io ctx)))"

subsection \<open>Notions used in the statements\<close>

text \<open>The routes that contribute a key: the root, and every route with a non-empty path segment.\<close>

definition contributes :: "route \<Rightarrow> bool" where
  "contributes r =
     (route_id r = ''root'' \<or> (case path r of None \<Rightarrow> False | Some p \<Rightarrow> p \<noteq> []))"

text \<open>The elements of a list in order of first appearance, each once.\<close>

fun first_occurrences :: "'a list \<Rightarrow> 'a list" where
  "first_occurrences [] = []"
| "first_occurrences (x # xs) = x # removeAll x (first_occurrences xs)"

text \<open>The two calls made for one route, and the whole sequence of a run of \<open>writeAll\<close>
  in which the declarations \<open>contents\<close> and the register text \<open>reg\<close> were generated.\<close>

definition route_calls :: "deps \<Rightarrow> Context \<Rightarrow> route \<Rightarrow> string \<Rightarrow> fs_call list" where
  "route_calls D ctx route content =
     [MkdirSync (Path_dirname (getTypesPath D ctx route)),
      WriteFileSync (getTypesPath D ctx route) content]"

definition writeAll_calls :: "deps \<Rightarrow> Context \<Rightarrow> string list \<Rightarrow> string \<Rightarrow> fs_call list" where
  "writeAll_calls D ctx contents reg =
     RmSync (getTypesDir D ctx)
     # concat (map2 (route_calls D ctx) (Object_values (routes (config ctx))) contents)
     @ [WriteFileSync (Path_join (getTypesDir D ctx) ''+register.ts'') reg,
        WriteFileSync (Path_join (getTypesDir D ctx) ''+virtual.d.ts'') virtual]"

text \<open>
  Replaying calls on a file system: \<open>final_fs\<close> is the file system when the replay ends
  (a failing call changes nothing), \<open>issued\<close> the calls made up to and including the
  first failing one. \<open>script cs out\<close> is the program that makes the calls \<open>cs\<close> in order
  and then ends with \<open>out\<close>.
\<close>

definition is_rm :: "fs_call \<Rightarrow> bool" where
  "is_rm c = (case c of RmSync d \<Rightarrow> True | _ \<Rightarrow> False)"

fun final_fs :: "fs_call list \<Rightarrow> filesystem \<Rightarrow> filesystem" where
  "final_fs [] s = s"
| "final_fs (c # cs) s = (case fs_step c s of Inl e \<Rightarrow> s | Inr s' \<Rightarrow> final_fs cs s')"

fun issued :: "fs_call list \<Rightarrow> filesystem \<Rightarrow> fs_call list" where
  "issued [] s = []"
| "issued (c # cs) s = c # (case fs_step c s of Inl e \<Rightarrow> [] | Inr s' \<Rightarrow> issued cs s')"

definition script :: "fs_call list \<Rightarrow> error + 'a \<Rightarrow> 'a io" where
  "script cs out = bind_io (forEach_io fs_call_io cs) (\<lambda>_. lift_io out)"

subsection \<open>An example configuration\<close>

text \<open>
  A root, a pathless layout and two routes with the same path; collaborators that
  succeed, and a loader that fails in mode \<open>bad\<close>.
\<close>

definition example_config :: config where
  "example_config =
     \<lparr>routes =
        [(''root'', \<lparr>route_id = ''root'', path = None\<rparr>),
         (''lay'', \<lparr>route_id = ''lay'', path = None\<rparr>),
         (''a'', \<lparr>route_id = ''a'', path = Some ''p/:id''\<rparr>),
         (''b'', \<lparr>route_id = ''b'', path = Some ''p/:id''\<rparr>)],
      future = \<lparr>unstable_middleware = False\<rparr>\<rparr>"

definition example_deps :: deps where
  "example_deps =
     \<lparr>createConfigLoader = (\<lambda>rootDir mode watchFlag.
        \<lparr>getConfig = (if mode = ''bad'' then Err ''no config'' else Ok example_config)\<rparr>),
      generate = (\<lambda>ctx route. Inr (''// '' @ route_id route)),
      getTypesDir = (\<lambda>ctx. [rootDirectory ctx, ''types'']),
      getTypesPath = (\<lambda>ctx route. [rootDirectory ctx, ''types'', route_id route, ''t.ts'']),
      lineage = (\<lambda>rs route. Inr [route]),
      fullpath = (\<lambda>lin. concat (map (\<lambda>r. case path r of None \<Rightarrow> ''/'' | Some p \<Rightarrow> p) lin)),
      Babel_generate = (\<lambda>d. alias_name d)\<rparr>"

definition example_context :: Context where
  "example_context =
     \<lparr>configLoader = \<lparr>getConfig = Ok example_config\<rparr>, rootDirectory = ''app'',
      config = example_config\<rparr>"

definition empty_world :: world where
  "empty_world = \<lparr>fs = Map.empty, fs_calls = [], logged = []\<rparr>"

definition stale_world :: world where
  "stale_world =
     \<lparr>fs = Map.empty
        ([''app''] \<mapsto> Dir, [''app'', ''types''] \<mapsto> Dir,
         [''app'', ''types'', ''old.ts''] \<mapsto> File ''old''),
      fs_calls = [], logged = []\<rparr>"

definition changed_config :: config where
  "changed_config = example_config\<lparr>future := \<lparr>unstable_middleware = True\<rparr>\<rparr>"

definition failed_event :: change_event where
  "failed_event =
     \<lparr>result = Err ''syntax error'', configChanged = True, routeConfigChanged = True\<rparr>"

definition quiet_event :: change_event where
  "quiet_event =
     \<lparr>result = Ok changed_config, configChanged = False, routeConfigChanged = False\<rparr>"

section \<open>Properties\<close>

subsection \<open>Programs as scripts of file-system calls\<close>

lemma bind_io_return: "bind_io (return_io x) f = f x"
  by (simp add: bind_io_def return_io_def)

lemma bind_io_throw: "bind_io (throw_io e) f = throw_io e"
  by (simp add: bind_io_def throw_io_def)

lemma bind_io_assoc: "bind_io (bind_io m f) g = bind_io m (\<lambda>x. bind_io (f x) g)"
  by (auto simp: bind_io_def fun_eq_iff split: prod.splits sum.splits)

lemma lift_io_Inr: "lift_io (Inr x) = return_io x"
  by (simp add: lift_io_def)

lemma lift_io_Inl: "lift_io (Inl e) = throw_io e"
  by (simp add: lift_io_def)

lemma forEach_io_append:
  "forEach_io f (xs @ ys) = then_io (forEach_io f xs) (forEach_io f ys)"
  by (induction xs) (simp_all add: then_io_def bind_io_return bind_io_assoc)

lemma script_return: "return_io x = script [] (Inr x)"
  by (simp add: script_def bind_io_return lift_io_Inr)

lemma script_throw: "throw_io e = script [] (Inl e)"
  by (simp add: script_def bind_io_return lift_io_Inl)

lemma script_call: "fs_call_io c = script [c] (Inr ())"
  by (auto simp: script_def then_io_def bind_io_def return_io_def lift_io_def fun_eq_iff
      split: prod.splits sum.splits)

lemma script_bind:
  "f x = script cs' out \<Longrightarrow> bind_io (script cs (Inr x)) f = script (cs @ cs') out"
  by (simp add: script_def forEach_io_append then_io_def bind_io_assoc lift_io_Inr bind_io_return)

lemma script_then:
  "k = script cs' out \<Longrightarrow> then_io (script cs (Inr ())) k = script (cs @ cs') out"
  unfolding then_io_def by (rule script_bind)

lemma script_bind_throw: "bind_io (script cs (Inl e)) f = script cs (Inl e)"
  by (simp add: script_def bind_io_assoc lift_io_Inl bind_io_throw)

lemma script_then_throw: "then_io (script cs (Inl e)) k = script cs (Inl e)"
  unfolding then_io_def by (rule script_bind_throw)

lemma fs_call_io_apply:
  "fs_call_io c w
     = (case fs_step c (fs w) of
          Inl e \<Rightarrow> (Inl e, w\<lparr>fs_calls := fs_calls w @ [c]\<rparr>)
        | Inr s' \<Rightarrow> (Inr (), w\<lparr>fs := s', fs_calls := fs_calls w @ [c]\<rparr>))"
  by (simp add: fs_call_io_def Let_def split: sum.splits)

lemma forEach_fs_call_io:
  "forEach_io fs_call_io cs w
     = ((case run_calls cs (fs w) of Inl e \<Rightarrow> Inl e | Inr s' \<Rightarrow> Inr ()),
        w\<lparr>fs := final_fs cs (fs w), fs_calls := fs_calls w @ issued cs (fs w)\<rparr>)"
proof (induction cs arbitrary: w)
  case Nil
  then show ?case by (simp add: return_io_def)
next
  case (Cons c cs)
  have unfold: "forEach_io fs_call_io (c # cs) w
      = (case fs_call_io c w of (Inl e, w') \<Rightarrow> (Inl e, w')
         | (Inr x, w') \<Rightarrow> forEach_io fs_call_io cs w')"
    by (simp add: then_io_def bind_io_def)
  show ?case
  proof (cases "fs_step c (fs w)")
    case (Inl e)
    then have "fs_call_io c w = (Inl e, w\<lparr>fs_calls := fs_calls w @ [c]\<rparr>)"
      by (simp add: fs_call_io_apply)
    then show ?thesis unfolding unfold by (simp add: Inl)
  next
    case (Inr s')
    then have "fs_call_io c w = (Inr (), w\<lparr>fs := s', fs_calls := fs_calls w @ [c]\<rparr>)"
      by (simp add: fs_call_io_apply)
    then show ?thesis unfolding unfold by (simp add: Inr Cons.IH)
  qed
qed

lemma script_apply:
  "script cs out w
     = ((case run_calls cs (fs w) of Inl e \<Rightarrow> Inl e | Inr s' \<Rightarrow> out),
        w\<lparr>fs := final_fs cs (fs w), fs_calls := fs_calls w @ issued cs (fs w)\<rparr>)"
  by (cases "run_calls cs (fs w)"; cases out)
    (simp_all add: script_def bind_io_def forEach_fs_call_io lift_io_def return_io_def throw_io_def)

lemma run_calls_Inr:
  "run_calls cs s = Inr s1 \<Longrightarrow> final_fs cs s = s1 \<and> issued cs s = cs"
  by (induction cs arbitrary: s) (auto split: sum.splits)

lemma run_calls_Inl:
  "run_calls cs s = Inl e \<Longrightarrow>
     \<exists>pre c post s1. cs = pre @ c # post \<and> run_calls pre s = Inr s1 \<and> fs_step c s1 = Inl e"
proof (induction cs arbitrary: s)
  case Nil
  then show ?case by simp
next
  case (Cons a cs)
  show ?case
  proof (cases "fs_step a s")
    case (Inl e')
    with Cons.prems have "a # cs = [] @ a # cs \<and> run_calls [] s = Inr s \<and> fs_step a s = Inl e"
      by simp
    then show ?thesis by blast
  next
    case (Inr s')
    with Cons.prems have "run_calls cs s' = Inl e" by simp
    from Cons.IH [OF this] obtain pre c post s1 where
      "cs = pre @ c # post" "run_calls pre s' = Inr s1" "fs_step c s1 = Inl e" by blast
    then have "a # cs = (a # pre) @ c # post \<and> run_calls (a # pre) s = Inr s1 \<and> fs_step c s1 = Inl e"
      using Inr by simp
    then show ?thesis by blast
  qed
qed

lemma run_calls_fail_at:
  "run_calls pre s = Inr s1 \<Longrightarrow> fs_step c s1 = Inl e \<Longrightarrow>
     run_calls (pre @ c # post) s = Inl e \<and> final_fs (pre @ c # post) s = s1
     \<and> issued (pre @ c # post) s = pre @ [c]"
  by (induction pre arbitrary: s) (auto split: sum.splits)

subsection \<open>Replaying calls after a removal\<close>

lemma not_file_and_dir: "is_file s p \<Longrightarrow> \<not> is_dir s p"
  by (auto simp: is_file_def is_dir_def)

lemma mkdir_check_None: "mkdir_check q s = None \<longleftrightarrow> (\<forall>p. prefix p q \<longrightarrow> \<not> is_file s p)"
proof -
  have "mkdir_check q s = None \<longleftrightarrow> filter (is_file s) (prefixes q) = []"
    by (simp add: mkdir_check_def split: list.splits)
  also have "\<dots> \<longleftrightarrow> (\<forall>p. prefix p q \<longrightarrow> \<not> is_file s p)"
    by (auto simp: filter_empty_conv)
  finally show ?thesis .
qed

lemma write_check_None:
  "write_check q s = None \<longleftrightarrow> \<not> is_dir s q \<and> is_dir s (Path_dirname q)"
  using not_file_and_dir [of s "Path_dirname q"] by (auto simp: write_check_def)

lemma fs_step_MkdirSync:
  "fs_step (MkdirSync q) s = Inr s' \<longleftrightarrow> (\<forall>p. prefix p q \<longrightarrow> \<not> is_file s p) \<and> s' = mk_dirs q s"
  using mkdir_check_None [of q s] by (cases "mkdir_check q s") auto

lemma fs_step_WriteFileSync:
  "fs_step (WriteFileSync q c) s = Inr s' \<longleftrightarrow>
     \<not> is_dir s q \<and> is_dir s (Path_dirname q) \<and> s' = s(q \<mapsto> File c)"
  using write_check_None [of q s] by (cases "write_check q s") auto

lemma fs_step_mono:
  assumes "fs_step c s = Inr s'" and "\<not> is_rm c"
  shows "(is_dir s p \<longrightarrow> is_dir s' p) \<and> (is_file s p \<longrightarrow> is_file s' p)"
proof (cases c)
  case (RmSync d)
  with assms show ?thesis by (simp add: is_rm_def)
next
  case (MkdirSync q)
  with assms have ok: "\<forall>p. prefix p q \<longrightarrow> \<not> is_file s p" and s': "s' = mk_dirs q s"
    by (simp_all del: fs_step.simps add: fs_step_MkdirSync)
  show ?thesis using ok unfolding s' by (auto simp: mk_dirs_def is_dir_def is_file_def)
next
  case (WriteFileSync q content)
  with assms have ok: "\<not> is_dir s q" and s': "s' = s(q \<mapsto> File content)"
    by (simp_all del: fs_step.simps add: fs_step_WriteFileSync)
  show ?thesis using ok unfolding s' by (auto simp: is_dir_def is_file_def)
qed

lemma run_calls_mono:
  "run_calls cs s = Inr s1 \<Longrightarrow> \<forall>c \<in> set cs. \<not> is_rm c \<Longrightarrow>
     (is_dir s p \<longrightarrow> is_dir s1 p) \<and> (is_file s p \<longrightarrow> is_file s1 p)"
proof (induction cs arbitrary: s)
  case Nil
  then show ?case by simp
next
  case (Cons c cs)
  then obtain s' where s': "fs_step c s = Inr s'" "run_calls cs s' = Inr s1"
    by (auto split: sum.splits)
  from fs_step_mono [OF s'(1), of p] Cons.prems(2) Cons.IH [OF s'(2)]
  show ?case by simp
qed

text \<open>One step of the second run, in a state that holds at each path either what the
  first run held at the same point or what it held at its end.\<close>

lemma fs_step_rerun:
  assumes step: "fs_step c s = Inr s'"
    and rest: "run_calls cs s' = Inr s1"
    and norm: "\<forall>c \<in> set (c # cs). \<not> is_rm c"
    and rel: "\<forall>p. t p = s1 p \<or> t p = s p"
  shows "\<exists>t'. fs_step c t = Inr t' \<and> (\<forall>p. t' p = s1 p \<or> t' p = s' p)"
proof (cases c)
  case (RmSync d)
  with norm show ?thesis by (simp add: is_rm_def)
next
  case (MkdirSync q)
  with step have ok: "\<forall>p. prefix p q \<longrightarrow> \<not> is_file s p" and s': "s' = mk_dirs q s"
    by (simp_all del: fs_step.simps add: fs_step_MkdirSync)
  have mono: "\<And>p. (is_dir s' p \<longrightarrow> is_dir s1 p) \<and> (is_file s' p \<longrightarrow> is_file s1 p)"
    using run_calls_mono [OF rest] norm by simp
  have "\<not> is_file t p" if pre: "prefix p q" for p
  proof
    assume f: "is_file t p"
    then have ne: "p \<noteq> []" by (simp add: is_file_def)
    from rel have "t p = s1 p \<or> t p = s p" by blast
    then show False
    proof
      assume "t p = s p"
      with f have "is_file s p" by (simp add: is_file_def)
      with ok pre show False by blast
    next
      assume eq: "t p = s1 p"
      have "is_dir s' p" using pre ne by (simp add: s' mk_dirs_def is_dir_def)
      then have "is_dir s1 p" using mono by blast
      moreover have "is_file s1 p" using f eq by (simp add: is_file_def)
      ultimately show False using not_file_and_dir by blast
    qed
  qed
  then have t': "fs_step c t = Inr (mk_dirs q t)"
    by (simp del: fs_step.simps add: MkdirSync fs_step_MkdirSync)
  have "mk_dirs q t p = s1 p \<or> mk_dirs q t p = s' p" for p
    using rel [rule_format, of p] by (auto simp: s' mk_dirs_def)
  with t' show ?thesis by blast
next
  case (WriteFileSync q content)
  with step have nd: "\<not> is_dir s q" and pd: "is_dir s (Path_dirname q)"
    and s': "s' = s(q \<mapsto> File content)"
    by (simp_all del: fs_step.simps add: fs_step_WriteFileSync)
  have mono: "\<And>p. (is_dir s' p \<longrightarrow> is_dir s1 p) \<and> (is_file s' p \<longrightarrow> is_file s1 p)"
    using run_calls_mono [OF rest] norm by simp
  from nd have ne: "q \<noteq> []" by (auto simp: is_dir_def)
  have "is_file s' q" using ne by (simp add: s' is_file_def)
  then have f1: "is_file s1 q" using mono by blast
  have ndt: "\<not> is_dir t q"
  proof
    assume d: "is_dir t q"
    from rel have "t q = s1 q \<or> t q = s q" by blast
    then show False
    proof
      assume "t q = s q"
      with d nd show False by (simp add: is_dir_def)
    next
      assume "t q = s1 q"
      with d have "is_dir s1 q" by (simp add: is_dir_def)
      with f1 show False using not_file_and_dir by blast
    qed
  qed
  have pdt: "is_dir t (Path_dirname q)"
  proof -
    from rel have "t (Path_dirname q) = s1 (Path_dirname q) \<or> t (Path_dirname q) = s (Path_dirname q)"
      by blast
    then show ?thesis
    proof
      assume "t (Path_dirname q) = s (Path_dirname q)"
      with pd show ?thesis by (simp add: is_dir_def)
    next
      assume eq: "t (Path_dirname q) = s1 (Path_dirname q)"
      have "is_dir s' (Path_dirname q)"
        using pd nd by (auto simp: s' is_dir_def)
      then have "is_dir s1 (Path_dirname q)" using mono by blast
      with eq show ?thesis by (simp add: is_dir_def)
    qed
  qed
  have t': "fs_step c t = Inr (t(q \<mapsto> File content))"
    using ndt pdt by (simp del: fs_step.simps add: WriteFileSync fs_step_WriteFileSync)
  have "(t(q \<mapsto> File content)) p = s1 p \<or> (t(q \<mapsto> File content)) p = s' p" for p
    using rel [rule_format, of p] by (auto simp: s')
  with t' show ?thesis by blast
qed

lemma run_calls_rerun:
  "run_calls cs s = Inr s1 \<Longrightarrow> \<forall>c \<in> set cs. \<not> is_rm c \<Longrightarrow> \<forall>p. t p = s1 p \<or> t p = s p
     \<Longrightarrow> run_calls cs t = Inr s1"
proof (induction cs arbitrary: s t)
  case Nil
  then have "t = s1" by (simp add: fun_eq_iff)
  then show ?case by simp
next
  case (Cons c cs)
  then obtain s' where s': "fs_step c s = Inr s'" "run_calls cs s' = Inr s1"
    by (auto split: sum.splits)
  from fs_step_rerun [OF s' Cons.prems(2) Cons.prems(3)]
  obtain t' where t': "fs_step c t = Inr t'" "\<forall>p. t' p = s1 p \<or> t' p = s' p" by blast
  have "run_calls cs t' = Inr s1"
    using Cons.IH [OF s'(2) _ t'(2)] Cons.prems(2) by simp
  with t'(1) show ?case by simp
qed

lemma run_calls_after_rm_idem:
  assumes "run_calls (RmSync d # cs) s0 = Inr s1" and "\<forall>c \<in> set cs. \<not> is_rm c"
  shows "run_calls (RmSync d # cs) s1 = Inr s1"
proof -
  from assms(1) have r: "run_calls cs (rm_tree d s0) = Inr s1" by simp
  have "\<forall>p. rm_tree d s1 p = s1 p \<or> rm_tree d s1 p = rm_tree d s0 p"
    by (simp add: rm_tree_def)
  from run_calls_rerun [OF r assms(2) this] show ?thesis by simp
qed

text \<open>Two successful replays agree wherever their starting points agree.\<close>

lemma fs_step_agree:
  "fs_step c s = Inr s' \<Longrightarrow> fs_step c t = Inr t' \<Longrightarrow> s p = t p \<Longrightarrow> s' p = t' p"
  by (cases c) (auto simp: rm_tree_def mk_dirs_def split: option.splits)

lemma run_calls_agree:
  "run_calls cs s = Inr s' \<Longrightarrow> run_calls cs t = Inr t' \<Longrightarrow> s p = t p \<Longrightarrow> s' p = t' p"
proof (induction cs arbitrary: s t)
  case Nil
  then show ?case by simp
next
  case (Cons c cs)
  then obtain s1 t1 where "fs_step c s = Inr s1" "run_calls cs s1 = Inr s'"
    "fs_step c t = Inr t1" "run_calls cs t1 = Inr t'"
    by (auto split: sum.splits)
  then show ?case using Cons.IH fs_step_agree Cons.prems(3) by blast
qed

lemma rm_never_fails: "fs_step (RmSync d) s \<noteq> Inl e"
  by simp

lemma rerun_same:
  assumes norm: "\<forall>c \<in> set rest. \<not> is_rm c"
  shows "run_calls (RmSync d # rest) (final_fs (RmSync d # rest) s) = run_calls (RmSync d # rest) s
       \<and> final_fs (RmSync d # rest) (final_fs (RmSync d # rest) s) = final_fs (RmSync d # rest) s
       \<and> issued (RmSync d # rest) (final_fs (RmSync d # rest) s) = issued (RmSync d # rest) s"
proof (cases "run_calls (RmSync d # rest) s")
  case (Inr s1)
  from run_calls_Inr [OF Inr] have f: "final_fs (RmSync d # rest) s = s1"
    and i: "issued (RmSync d # rest) s = RmSync d # rest" by simp_all
  have again: "run_calls (RmSync d # rest) s1 = Inr s1"
    by (rule run_calls_after_rm_idem [OF Inr norm])
  from run_calls_Inr [OF again] show ?thesis
    unfolding f i Inr again by simp
next
  case (Inl e)
  from run_calls_Inl [OF Inl] obtain pre c post s1 where
    cs: "RmSync d # rest = pre @ c # post" and pre: "run_calls pre s = Inr s1"
    and c: "fs_step c s1 = Inl e" by blast
  have "pre \<noteq> []"
  proof
    assume "pre = []"
    with cs have "c = RmSync d" by simp
    with c show False by simp
  qed
  then obtain pre' where pre': "pre = RmSync d # pre'" "rest = pre' @ c # post"
    using cs by (cases pre) auto
  have "\<forall>c \<in> set pre'. \<not> is_rm c" using norm pre'(2) by simp
  then have again: "run_calls pre s1 = Inr s1"
    using pre unfolding pre'(1) by (rule run_calls_after_rm_idem [rotated])
  from run_calls_fail_at [OF pre c, of post] run_calls_fail_at [OF again c, of post]
  show ?thesis unfolding cs by simp
qed

lemma script_rerun:
  assumes norm: "\<forall>c \<in> set rest. \<not> is_rm c"
    and m: "m = script (RmSync d # rest) out"
  shows "fst (m (snd (m w))) = fst (m w)
       \<and> fs (snd (m (snd (m w)))) = fs (snd (m w))
       \<and> fs_calls (snd (m w)) = fs_calls w @ issued (RmSync d # rest) (fs w)
       \<and> fs_calls (snd (m (snd (m w)))) = fs_calls (snd (m w)) @ issued (RmSync d # rest) (fs w)"
  using rerun_same [OF norm, of d "fs w"] unfolding m script_apply by simp

subsection \<open>The script of \<open>writeAll\<close>\<close>

lemma map_Inr_or_first_Inl:
  "(\<exists>ys. map f xs = map Inr ys)
   \<or> (\<exists>pre x post ys e. xs = pre @ x # post \<and> map f pre = map Inr ys \<and> f x = Inl e)"
proof (induction xs)
  case Nil
  then show ?case by simp
next
  case (Cons a xs)
  show ?case
  proof (cases "f a")
    case (Inl e)
    then have "a # xs = [] @ a # xs \<and> map f [] = map Inr [] \<and> f a = Inl e" by simp
    then show ?thesis by blast
  next
    case (Inr y)
    from Cons show ?thesis
    proof
      assume "\<exists>ys. map f xs = map Inr ys"
      then obtain ys where "map f xs = map Inr ys" ..
      then have "map f (a # xs) = map Inr (y # ys)" using Inr by simp
      then show ?thesis by blast
    next
      assume "\<exists>pre x post ys e. xs = pre @ x # post \<and> map f pre = map Inr ys \<and> f x = Inl e"
      then obtain pre x post ys e where
        "xs = pre @ x # post" "map f pre = map Inr ys" "f x = Inl e" by blast
      then have "a # xs = (a # pre) @ x # post \<and> map f (a # pre) = map Inr (y # ys) \<and> f x = Inl e"
        using Inr by simp
      then show ?thesis by blast
    qed
  qed
qed

lemma write_route_script:
  "generate D ctx r = Inr content \<Longrightarrow>
     write_route D ctx r = script (route_calls D ctx r content) (Inr ())"
proof -
  have "then_io (script [MkdirSync (Path_dirname (getTypesPath D ctx r))] (Inr ()))
                (fs_call_io (WriteFileSync (getTypesPath D ctx r) content))
      = script ([MkdirSync (Path_dirname (getTypesPath D ctx r))]
                @ [WriteFileSync (getTypesPath D ctx r) content]) (Inr ())"
    by (rule script_then [OF script_call])
  moreover assume "generate D ctx r = Inr content"
  ultimately show ?thesis
    by (simp add: write_route_def route_calls_def lift_io_Inr bind_io_return Let_def
        mkdirSync_def writeFileSync_def script_call [symmetric])
qed

lemma write_route_throw:
  "generate D ctx r = Inl e \<Longrightarrow> write_route D ctx r = script [] (Inl e)"
  by (simp add: write_route_def Let_def lift_io_Inl script_throw script_bind_throw)

lemma forEach_routes_script:
  "map (generate D ctx) rs = map Inr contents \<Longrightarrow>
     forEach_io (write_route D ctx) rs
       = script (concat (map2 (route_calls D ctx) rs contents)) (Inr ())"
proof (induction rs arbitrary: contents)
  case Nil
  then show ?case by (simp add: script_return)
next
  case (Cons r rs)
  then obtain c cs where c: "contents = c # cs" "generate D ctx r = Inr c"
    "map (generate D ctx) rs = map Inr cs"
    by (cases contents) auto
  show ?case
    unfolding forEach_io.simps write_route_script [OF c(2)]
    using Cons.IH [OF c(3), THEN script_then] by (simp add: c(1))
qed

lemma forEach_routes_throw:
  assumes "map (generate D ctx) pre = map Inr contents" and "generate D ctx r = Inl e"
  shows "forEach_io (write_route D ctx) (pre @ r # post)
       = script (concat (map2 (route_calls D ctx) pre contents)) (Inl e)"
proof -
  have "forEach_io (write_route D ctx) (r # post) = script [] (Inl e)"
    by (simp add: write_route_throw [OF assms(2)] script_then_throw)
  then show ?thesis
    unfolding forEach_io_append forEach_routes_script [OF assms(1)]
    using script_then [of "forEach_io (write_route D ctx) (r # post)" "[]" "Inl e"]
    by simp
qed

lemma no_rm_route_calls: "\<forall>c \<in> set (concat (map2 (route_calls D ctx) rs contents)). \<not> is_rm c"
  by (auto simp: route_calls_def is_rm_def)

lemma writeAll_script_ok:
  assumes gen: "map (generate D ctx) (Object_values (routes (config ctx))) = map Inr contents"
    and reg: "register D ctx = Inr reg"
  shows "writeAll D ctx = script (writeAll_calls D ctx contents reg) (Inr ())"
proof -
  let ?dir = "getTypesDir D ctx"
  let ?rcs = "concat (map2 (route_calls D ctx) (Object_values (routes (config ctx))) contents)"
  let ?reg = "WriteFileSync (Path_join ?dir ''+register.ts'') reg"
  let ?virt = "WriteFileSync (Path_join ?dir ''+virtual.d.ts'') virtual"
  have 1: "then_io (script [?reg] (Inr ())) (fs_call_io ?virt) = script ([?reg] @ [?virt]) (Inr ())"
    by (rule script_then [OF script_call])
  have 2: "then_io (script ?rcs (Inr ())) (script ([?reg] @ [?virt]) (Inr ()))
      = script (?rcs @ [?reg] @ [?virt]) (Inr ())"
    by (rule script_then [OF refl])
  have 3: "then_io (script [RmSync ?dir] (Inr ())) (script (?rcs @ [?reg] @ [?virt]) (Inr ()))
      = script ([RmSync ?dir] @ ?rcs @ [?reg] @ [?virt]) (Inr ())"
    by (rule script_then [OF refl])
  show ?thesis
    unfolding writeAll_def Let_def rmSync_def writeFileSync_def reg lift_io_Inr bind_io_return
      forEach_routes_script [OF gen]
    unfolding script_call [of "RmSync ?dir"] script_call [of ?reg] 1 2 3
    by (simp add: writeAll_calls_def)
qed

lemma writeAll_script_register_throw:
  assumes gen: "map (generate D ctx) (Object_values (routes (config ctx))) = map Inr contents"
    and reg: "register D ctx = Inl e"
  shows "writeAll D ctx = script (RmSync (getTypesDir D ctx)
       # concat (map2 (route_calls D ctx) (Object_values (routes (config ctx))) contents)) (Inl e)"
proof -
  let ?dir = "getTypesDir D ctx"
  let ?rcs = "concat (map2 (route_calls D ctx) (Object_values (routes (config ctx))) contents)"
  have 1: "then_io (script [] (Inl e)) k = script [] (Inl e)" for k :: "unit io"
    by (rule script_then_throw)
  have 2: "then_io (script ?rcs (Inr ())) (script [] (Inl e)) = script (?rcs @ []) (Inl e)"
    by (rule script_then [OF refl])
  have 3: "then_io (script [RmSync ?dir] (Inr ())) (script (?rcs @ []) (Inl e))
      = script ([RmSync ?dir] @ ?rcs @ []) (Inl e)"
    by (rule script_then [OF refl])
  show ?thesis
    unfolding writeAll_def Let_def rmSync_def reg lift_io_Inl bind_io_throw
      forEach_routes_script [OF gen]
    unfolding script_call [of "RmSync ?dir"] script_throw 1 2 3
    by simp
qed

lemma writeAll_script_generate_throw:
  assumes rs: "Object_values (routes (config ctx)) = pre @ r # post"
    and gen: "map (generate D ctx) pre = map Inr contents"
    and r: "generate D ctx r = Inl e"
  shows "writeAll D ctx = script (RmSync (getTypesDir D ctx)
       # concat (map2 (route_calls D ctx) pre contents)) (Inl e)"
proof -
  let ?dir = "getTypesDir D ctx"
  let ?rcs = "concat (map2 (route_calls D ctx) pre contents)"
  have 1: "then_io (script ?rcs (Inl e)) k = script ?rcs (Inl e)" for k :: "unit io"
    by (rule script_then_throw)
  have 3: "then_io (script [RmSync ?dir] (Inr ())) (script ?rcs (Inl e))
      = script ([RmSync ?dir] @ ?rcs) (Inl e)"
    by (rule script_then [OF refl])
  show ?thesis
    unfolding writeAll_def Let_def rmSync_def rs forEach_routes_throw [OF gen r]
    unfolding script_call [of "RmSync ?dir"] 1 3
    by simp
qed

lemma no_rm_writeAll_calls:
  "writeAll_calls D ctx contents reg = RmSync (getTypesDir D ctx) # cs \<Longrightarrow> \<forall>c \<in> set cs. \<not> is_rm c"
  by (auto simp: writeAll_calls_def route_calls_def is_rm_def)

text \<open>Whatever the collaborators do, \<open>writeAll\<close> is a removal followed by calls that
  remove nothing, and it ends well only after the whole sequence.\<close>

lemma writeAll_script:
  "\<exists>rest out. writeAll D ctx = script (RmSync (getTypesDir D ctx) # rest) out
     \<and> (\<forall>c \<in> set rest. \<not> is_rm c)
     \<and> (\<forall>u. out = Inr u \<longrightarrow>
          (\<exists>contents reg.
             map (generate D ctx) (Object_values (routes (config ctx))) = map Inr contents
           \<and> register D ctx = Inr reg
           \<and> RmSync (getTypesDir D ctx) # rest = writeAll_calls D ctx contents reg))"
proof -
  let ?rs = "Object_values (routes (config ctx))"
  from map_Inr_or_first_Inl [of "generate D ctx" ?rs] show ?thesis
  proof
    assume "\<exists>ys. map (generate D ctx) ?rs = map Inr ys"
    then obtain contents where gen: "map (generate D ctx) ?rs = map Inr contents" ..
    show ?thesis
    proof (cases "register D ctx")
      case (Inl e)
      from writeAll_script_register_throw [OF gen Inl] no_rm_route_calls [of D ctx ?rs contents]
      show ?thesis by blast
    next
      case (Inr reg)
      obtain rest where rest: "writeAll_calls D ctx contents reg = RmSync (getTypesDir D ctx) # rest"
        by (simp add: writeAll_calls_def)
      from writeAll_script_ok [OF gen Inr] no_rm_writeAll_calls [OF rest] gen Inr rest
      show ?thesis by metis
    qed
  next
    assume "\<exists>pre x post ys e. ?rs = pre @ x # post \<and> map (generate D ctx) pre = map Inr ys
        \<and> generate D ctx x = Inl e"
    then obtain pre x post ys e where
      "?rs = pre @ x # post" "map (generate D ctx) pre = map Inr ys" "generate D ctx x = Inl e"
      by blast
    from writeAll_script_generate_throw [OF this] no_rm_route_calls [of D ctx pre ys]
    show ?thesis by blast
  qed
qed

lemma writeAll_success:
  assumes ok: "fst (writeAll D ctx w) = Inr ()"
  shows "\<exists>contents reg s'.
           map (generate D ctx) (Object_values (routes (config ctx))) = map Inr contents
         \<and> register D ctx = Inr reg
         \<and> writeAll D ctx = script (writeAll_calls D ctx contents reg) (Inr ())
         \<and> run_calls (writeAll_calls D ctx contents reg) (fs w) = Inr s'
         \<and> writeAll D ctx w
             = (Inr (), w\<lparr>fs := s', fs_calls := fs_calls w @ writeAll_calls D ctx contents reg\<rparr>)"
proof -
  from writeAll_script [of D ctx] obtain rest out where
    m: "writeAll D ctx = script (RmSync (getTypesDir D ctx) # rest) out"
    and out: "\<forall>u. out = Inr u \<longrightarrow>
          (\<exists>contents reg.
             map (generate D ctx) (Object_values (routes (config ctx))) = map Inr contents
           \<and> register D ctx = Inr reg
           \<and> RmSync (getTypesDir D ctx) # rest = writeAll_calls D ctx contents reg)"
    by blast
  let ?cs = "RmSync (getTypesDir D ctx) # rest"
  from ok obtain s' where run: "run_calls ?cs (fs w) = Inr s'" and o: "out = Inr ()"
    unfolding m script_apply by (cases "run_calls ?cs (fs w)") auto
  from out o obtain contents reg where
    gen: "map (generate D ctx) (Object_values (routes (config ctx))) = map Inr contents"
    and reg: "register D ctx = Inr reg"
    and cs: "?cs = writeAll_calls D ctx contents reg"
    by blast
  have "writeAll D ctx w = (Inr (), w\<lparr>fs := s', fs_calls := fs_calls w @ ?cs\<rparr>)"
    unfolding m script_apply using run run_calls_Inr [OF run] by (simp add: o)
  with gen reg run m o show ?thesis unfolding cs by blast
qed

subsection \<open>The set of full paths\<close>

lemma contributes_iff: "contributes r \<longleftrightarrow> \<not> (route_id r \<noteq> ''root'' \<and> no_path r)"
  by (auto simp: contributes_def no_path_def split: option.splits)

lemma set_first_occurrences [simp]: "set (first_occurrences xs) = set xs"
  by (induction xs) auto

lemma distinct_first_occurrences [simp]: "distinct (first_occurrences xs)"
  by (induction xs) (auto simp: distinct_removeAll)

lemma filter_removeAll_out: "\<not> P x \<Longrightarrow> filter P (removeAll x xs) = filter P xs"
  by (induction xs) auto

lemma filter_removeAll_in:
  "filter (\<lambda>y. y \<notin> insert x A) xs = filter (\<lambda>y. y \<notin> A) (removeAll x xs)"
  by (induction xs) auto

lemma collect_fullpaths_skip:
  "collect_fullpaths D ctx rs acc = collect_fullpaths D ctx (filter contributes rs) acc"
  by (induction rs arbitrary: acc) (auto simp: contributes_iff split: sum.splits)

lemma collect_fullpaths_order:
  "collect_fullpaths D ctx rs acc = Inr fps \<Longrightarrow>
     \<exists>lins. map (lineage D (routes (config ctx))) (filter contributes rs) = map Inr lins
       \<and> fps = acc @ filter (\<lambda>fp. fp \<notin> set acc) (first_occurrences (map (fullpath D) lins))"
proof (induction rs arbitrary: acc)
  case Nil
  then show ?case by simp
next
  case (Cons r rs)
  show ?case
  proof (cases "contributes r")
    case False
    with Cons show ?thesis by (simp add: contributes_iff)
  next
    case True
    then obtain lin where lin: "lineage D (routes (config ctx)) r = Inr lin"
      and rest: "collect_fullpaths D ctx rs (Set_add (fullpath D lin) acc) = Inr fps"
      using Cons.prems by (auto simp: contributes_iff split: sum.splits)
    from Cons.IH [OF rest] obtain lins where
      lins: "map (lineage D (routes (config ctx))) (filter contributes rs) = map Inr lins"
      and fps: "fps = Set_add (fullpath D lin) acc
          @ filter (\<lambda>fp. fp \<notin> set (Set_add (fullpath D lin) acc))
              (first_occurrences (map (fullpath D) lins))"
      by blast
    have "map (lineage D (routes (config ctx))) (filter contributes (r # rs)) = map Inr (lin # lins)"
      using True lin lins by simp
    moreover have "fps = acc @ filter (\<lambda>fp. fp \<notin> set acc)
        (first_occurrences (map (fullpath D) (lin # lins)))"
    proof (cases "fullpath D lin \<in> set acc")
      case True
      then show ?thesis using fps by (simp add: Set_add_def filter_removeAll_out)
    next
      case False
      then show ?thesis using fps
        by (simp add: Set_add_def filter_removeAll_in [symmetric])
    qed
    ultimately show ?thesis by blast
  qed
qed

lemma map_eq_Inr_iff:
  "map f xs = map Inr ys \<Longrightarrow> y \<in> set ys \<longleftrightarrow> (\<exists>x \<in> set xs. f x = Inr y)"
proof (induction xs arbitrary: ys)
  case Nil
  then show ?case by simp
next
  case (Cons x xs)
  then obtain z zs where ys: "ys = z # zs" "f x = Inr z" "map f xs = map Inr zs"
    by (cases ys) auto
  from Cons.IH [OF ys(3)] show ?case using ys(1,2) by auto
qed

subsection \<open>The parser\<close>

lemma keys_Object_set:
  "map fst (Object_set k v kvs) = (if k \<in> fst ` set kvs then map fst kvs else map fst kvs @ [k])"
  by (induction k v kvs rule: Object_set.induct) force+

lemma keys_set_Object_set: "fst ` set (Object_set k v kvs) = insert k (fst ` set kvs)"
  using keys_Object_set [of k v kvs, THEN arg_cong, of set] by (auto split: if_splits)

lemma map_of_Object_set:
  "map_of (Object_set k v kvs) k' = (if k' = k then Some v else map_of kvs k')"
  by (induction k v kvs rule: Object_set.induct) auto

lemma keys_parse_segment:
  "fst ` set (parse_segment acc seg)
     = fst ` set acc \<union> {n. \<exists>b. segment_decl seg = Some (n, b)}"
proof (cases "segment_decl seg")
  case None
  then show ?thesis by (simp add: parse_segment_def)
next
  case (Some d)
  obtain m b where d: "d = (m, b)" by (cases d)
  have "{n. \<exists>b'. segment_decl seg = Some (n, b')} = {m}" using Some d by auto
  then show ?thesis using Some d by (simp add: parse_segment_def keys_set_Object_set)
qed

lemma distinct_parse_segment:
  "distinct (map fst acc) \<Longrightarrow> distinct (map fst (parse_segment acc seg))"
  by (cases "segment_decl seg") (auto simp: parse_segment_def keys_Object_set)

lemma one_entry_per_key:
  "distinct (map fst kvs) \<Longrightarrow> n \<in> fst ` set kvs \<Longrightarrow> length (filter (\<lambda>kv. fst kv = n) kvs) = 1"
proof (induction kvs)
  case Nil
  then show ?case by simp
next
  case (Cons kv kvs)
  show ?case
  proof (cases "fst kv = n")
    case True
    then have "filter (\<lambda>kv. fst kv = n) kvs = []"
      using Cons.prems(1) by (auto simp: filter_empty_conv image_iff)
    with True show ?thesis by simp
  next
    case False
    with Cons show ?thesis by auto
  qed
qed

lemma map_of_parse_segment:
  "map_of (parse_segment acc seg) n
     = (case segment_decl seg of
          None \<Rightarrow> map_of acc n
        | Some (m, b) \<Rightarrow> if n = m then Some b else map_of acc n)"
  by (cases "segment_decl seg") (auto simp: parse_segment_def map_of_Object_set)

lemma keys_foldl_parse_segment:
  "fst ` set (foldl parse_segment acc segs)
     = fst ` set acc \<union> {n. \<exists>seg \<in> set segs. \<exists>b. segment_decl seg = Some (n, b)}"
proof (induction segs arbitrary: acc)
  case Nil
  then show ?case by simp
next
  case (Cons seg segs)
  show ?case
    unfolding foldl_Cons Cons.IH keys_parse_segment by auto
qed

lemma distinct_foldl_parse_segment:
  "distinct (map fst acc) \<Longrightarrow> distinct (map fst (foldl parse_segment acc segs))"
  by (induction segs arbitrary: acc) (simp_all add: distinct_parse_segment)

lemma map_of_foldl_undeclared:
  "\<forall>seg \<in> set segs. \<forall>b. segment_decl seg \<noteq> Some (n, b) \<Longrightarrow>
     map_of (foldl parse_segment acc segs) n = map_of acc n"
proof (induction segs arbitrary: acc)
  case Nil
  then show ?case by simp
next
  case (Cons seg segs)
  then have "map_of (parse_segment acc seg) n = map_of acc n"
    by (auto simp: map_of_parse_segment split: option.splits)
  with Cons show ?case by simp
qed

lemma segment_decl_names:
  "{n. \<exists>seg \<in> S. \<exists>b. segment_decl seg = Some (n, b)}
     = {param_name seg |seg. seg \<in> S \<and> is_dynamic seg} \<union> {''*'' |seg. seg \<in> S \<and> is_splat seg}"
  (is "?L = ?R")
proof (intro set_eqI iffI)
  fix n assume "n \<in> ?L"
  then obtain seg b where "seg \<in> S" "segment_decl seg = Some (n, b)" by blast
  then show "n \<in> ?R"
    by (cases "is_dynamic seg"; cases "is_splat seg") (auto simp: segment_decl_def)
next
  fix n assume "n \<in> ?R"
  then consider seg where "seg \<in> S" "is_dynamic seg" "n = param_name seg"
    | seg where "seg \<in> S" "is_splat seg" "n = ''*''" by blast
  then show "n \<in> ?L"
  proof cases
    case 1
    then have "segment_decl seg = Some (n, \<not> is_optional seg)" by (simp add: segment_decl_def)
    with 1 show ?thesis by blast
  next
    case 2
    then have "segment_decl seg = Some (n, True)"
      by (simp add: segment_decl_def is_splat_def is_dynamic_def)
    with 2 show ?thesis by blast
  qed
qed

subsection \<open>The example evaluated\<close>

lemma example_generate:
  "map (generate example_deps example_context) (Object_values (routes (config example_context)))
     = map Inr [''// root'', ''// lay'', ''// a'', ''// b'']"
  by (simp add: example_deps_def example_context_def example_config_def Object_values_def)

lemma example_fullpaths:
  "register_fullpaths example_deps example_context = Inr [''/'', ''p/:id'']"
  by (simp add: register_fullpaths_def example_deps_def example_context_def example_config_def
      Object_values_def no_path_def Set_add_def)

lemma example_register:
  "\<exists>reg. register example_deps example_context = Inr reg"
  by (simp add: register_def example_fullpaths)

lemma example_run_calls:
  "\<exists>s'. run_calls (writeAll_calls example_deps example_context
       [''// root'', ''// lay'', ''// a'', ''// b''] reg) Map.empty = Inr s'"
  by (simp add: writeAll_calls_def route_calls_def example_deps_def example_context_def
      example_config_def Object_values_def mkdir_check_def write_check_def is_file_def is_dir_def
      Path_dirname_def Path_join_def mk_dirs_def rm_tree_def)

lemma example_run_ok: "fst (writeAll example_deps example_context empty_world) = Inr ()"
proof -
  obtain reg where reg: "register example_deps example_context = Inr reg"
    using example_register ..
  obtain s' where "run_calls (writeAll_calls example_deps example_context
       [''// root'', ''// lay'', ''// a'', ''// b''] reg) Map.empty = Inr s'"
    using example_run_calls ..
  then show ?thesis
    unfolding writeAll_script_ok [OF example_generate reg] script_apply
    by (simp add: empty_world_def)
qed

lemma example_stale_run_calls:
  "\<exists>s'. run_calls (writeAll_calls example_deps example_context
       [''// root'', ''// lay'', ''// a'', ''// b''] reg) (fs stale_world) = Inr s'"
  by (simp add: writeAll_calls_def route_calls_def example_deps_def example_context_def
      example_config_def Object_values_def mkdir_check_def write_check_def is_file_def is_dir_def
      Path_dirname_def Path_join_def mk_dirs_def rm_tree_def stale_world_def)

lemma example_stale_run_ok: "fst (writeAll example_deps example_context stale_world) = Inr ()"
proof -
  obtain reg where reg: "register example_deps example_context = Inr reg"
    using example_register ..
  obtain s' where "run_calls (writeAll_calls example_deps example_context
       [''// root'', ''// lay'', ''// a'', ''// b''] reg) (fs stale_world) = Inr s'"
    using example_stale_run_calls ..
  then show ?thesis
    unfolding writeAll_script_ok [OF example_generate reg] script_apply by simp
qed

lemma map_Inr_inject: "map Inr xs = map Inr ys \<Longrightarrow> xs = ys"
  by (simp add: inj_map_eq_map)

section \<open>The claims\<close>

text \<open>
  Claim C1. Running \<open>writeAll\<close> a second time on the world the first run left, with the
  same context, ends the same way, leaves the file system exactly as the first run left
  it and makes the same calls again. Two successful runs from any two worlds leave the
  same contents at every path in the output directory: what is generated depends on
  the snapshot only.
\<close>

theorem writeAll_idempotent:
  "fst (writeAll D ctx (snd (writeAll D ctx w))) = fst (writeAll D ctx w)
   \<and> fs (snd (writeAll D ctx (snd (writeAll D ctx w)))) = fs (snd (writeAll D ctx w))
   \<and> (\<exists>cs. fs_calls (snd (writeAll D ctx w)) = fs_calls w @ cs
          \<and> fs_calls (snd (writeAll D ctx (snd (writeAll D ctx w))))
              = fs_calls (snd (writeAll D ctx w)) @ cs)
   \<and> (fst (writeAll D ctx w) = Inr () \<and> fst (writeAll D ctx w') = Inr ()
        \<and> prefix (getTypesDir D ctx) p
        \<longrightarrow> fs (snd (writeAll D ctx w')) p = fs (snd (writeAll D ctx w)) p)"
proof -
  from writeAll_script [of D ctx] obtain rest out where
    m: "writeAll D ctx = script (RmSync (getTypesDir D ctx) # rest) out"
    and norm: "\<forall>c \<in> set rest. \<not> is_rm c"
    by blast
  note again = script_rerun [OF norm m, of w]
  have same: "fs (snd (writeAll D ctx w')) p = fs (snd (writeAll D ctx w)) p"
    if ok: "fst (writeAll D ctx w) = Inr ()" and ok': "fst (writeAll D ctx w') = Inr ()"
      and pre: "prefix (getTypesDir D ctx) p"
  proof -
    let ?cs = "RmSync (getTypesDir D ctx) # rest"
    from ok obtain s1 where run: "run_calls ?cs (fs w) = Inr s1"
      unfolding m script_apply by (cases "run_calls ?cs (fs w)") auto
    from ok' obtain s1' where run': "run_calls ?cs (fs w') = Inr s1'"
      unfolding m script_apply by (cases "run_calls ?cs (fs w')") auto
    have a: "run_calls rest (rm_tree (getTypesDir D ctx) (fs w)) = Inr s1"
      using run by simp
    have b: "run_calls rest (rm_tree (getTypesDir D ctx) (fs w')) = Inr s1'"
      using run' by simp
    have "rm_tree (getTypesDir D ctx) (fs w') p = rm_tree (getTypesDir D ctx) (fs w) p"
      using pre by (simp add: rm_tree_def)
    from run_calls_agree [OF b a this] run_calls_Inr [OF run] run_calls_Inr [OF run']
    show ?thesis unfolding m script_apply by simp
  qed
  from again same show ?thesis by blast
qed

theorem writeAll_idempotent_witness:
  "fst (writeAll example_deps example_context empty_world) = Inr ()
   \<and> fst (writeAll example_deps example_context stale_world) = Inr ()
   \<and> fst (writeAll example_deps example_context
            (snd (writeAll example_deps example_context empty_world))) = Inr ()
   \<and> fs (snd (writeAll example_deps example_context
            (snd (writeAll example_deps example_context empty_world))))
       = fs (snd (writeAll example_deps example_context empty_world))
   \<and> fs (snd (writeAll example_deps example_context stale_world)) [''app'', ''types'', ''old.ts'']
       = fs (snd (writeAll example_deps example_context empty_world)) [''app'', ''types'', ''old.ts'']"
  using writeAll_idempotent [of example_deps example_context empty_world stale_world
      "[''app'', ''types'', ''old.ts'']"]
    example_run_ok example_stale_run_ok
  by (simp add: example_deps_def example_context_def)

text \<open>
  Claim C2. On a change notification with a failed reload the handler only logs the error:
  no file-system call is made, the file system and \<open>ctx.config\<close> stay as they were.
\<close>

theorem failed_reload_keeps_state:
  "result ev = Err e \<Longrightarrow>
     onChange D lg ev ctx w
       = (Inr (), ctx,
          w\<lparr>logged := logged w @ (case lg of None \<Rightarrow> [] | Some l \<Rightarrow> [LogError (Red e) log_opts])\<rparr>)
     \<and> fs (snd (snd (onChange D lg ev ctx w))) = fs w
     \<and> fs_calls (snd (snd (onChange D lg ev ctx w))) = fs_calls w
     \<and> config (fst (snd (onChange D lg ev ctx w))) = config ctx"
  by (simp add: onChange_def logger_error_def split: option.splits)

theorem failed_reload_keeps_state_witness:
  "result failed_event = Err ''syntax error''
   \<and> onChange example_deps (Some Logger) failed_event example_context stale_world
       = (Inr (), example_context,
          stale_world\<lparr>logged := [LogError (Red ''syntax error'') log_opts]\<rparr>)
   \<and> fs_calls (snd (snd (onChange example_deps (Some Logger) failed_event example_context
         stale_world))) = []"
  using failed_reload_keeps_state [of failed_event "''syntax error''" example_deps "Some Logger"
      example_context stale_world]
  by (simp add: failed_event_def stale_world_def)

text \<open>
  Claim C3. On a successful reload with both change flags false the handler does not call
  \<open>writeAll\<close>: the world, and with it the list of file-system calls, is unchanged.
\<close>

theorem no_change_no_writes:
  "result ev = Ok v \<Longrightarrow> \<not> configChanged ev \<Longrightarrow> \<not> routeConfigChanged ev \<Longrightarrow>
     snd (snd (onChange D lg ev ctx w)) = w
     \<and> fs_calls (snd (snd (onChange D lg ev ctx w))) = fs_calls w
     \<and> fst (onChange D lg ev ctx w) = Inr ()"
  by (simp add: onChange_def)

theorem no_change_no_writes_witness:
  "result quiet_event = Ok changed_config
   \<and> \<not> configChanged quiet_event \<and> \<not> routeConfigChanged quiet_event
   \<and> snd (snd (onChange example_deps (Some Logger) quiet_event example_context stale_world))
       = stale_world
   \<and> fs_calls (snd (snd (onChange example_deps (Some Logger) quiet_event example_context
         stale_world))) = []"
  using no_change_no_writes [of quiet_event changed_config example_deps "Some Logger"
      example_context stale_world]
  by (simp add: quiet_event_def stale_world_def)

text \<open>
  Claim C4. In \<open>register\<close>, the set of full paths is the set of the full paths of the routes
  that are the root or have a non-empty path segment; a pathless route other than the
  root is skipped: the loop over all routes is the loop over the contributing ones.
\<close>

theorem register_key_collection:
  "register_fullpaths D ctx =
     collect_fullpaths D ctx (filter contributes (Object_values (routes (config ctx)))) []
   \<and> (register_fullpaths D ctx = Inr fps \<longrightarrow>
        (\<forall>fp. fp \<in> set fps \<longleftrightarrow>
           (\<exists>r \<in> set (Object_values (routes (config ctx))). contributes r
              \<and> (\<exists>lin. lineage D (routes (config ctx)) r = Inr lin \<and> fullpath D lin = fp))))"
proof (intro conjI impI allI)
  show "register_fullpaths D ctx =
     collect_fullpaths D ctx (filter contributes (Object_values (routes (config ctx)))) []"
    unfolding register_fullpaths_def by (rule collect_fullpaths_skip)
next
  fix fp
  assume ok: "register_fullpaths D ctx = Inr fps"
  let ?rs = "Object_values (routes (config ctx))"
  let ?L = "lineage D (routes (config ctx))"
  from ok obtain lins where
    lins: "map ?L (filter contributes ?rs) = map Inr lins"
    and fps: "fps = first_occurrences (map (fullpath D) lins)"
    unfolding register_fullpaths_def by (auto dest: collect_fullpaths_order)
  have mem: "lin \<in> set lins \<longleftrightarrow> (\<exists>r \<in> set (filter contributes ?rs). ?L r = Inr lin)" for lin
    by (rule map_eq_Inr_iff [OF lins])
  have "fp \<in> set fps \<longleftrightarrow> (\<exists>lin \<in> set lins. fullpath D lin = fp)"
    unfolding fps by (simp add: image_iff) blast
  also have "\<dots> \<longleftrightarrow> (\<exists>lin. (\<exists>r \<in> set (filter contributes ?rs). ?L r = Inr lin) \<and> fullpath D lin = fp)"
    unfolding mem [symmetric] by blast
  also have "\<dots> \<longleftrightarrow> (\<exists>r \<in> set ?rs. contributes r
              \<and> (\<exists>lin. ?L r = Inr lin \<and> fullpath D lin = fp))"
    by (simp only: set_filter mem_Collect_eq) blast
  finally show "fp \<in> set fps \<longleftrightarrow> (\<exists>r \<in> set ?rs. contributes r
              \<and> (\<exists>lin. ?L r = Inr lin \<and> fullpath D lin = fp))" .
qed

theorem register_key_collection_witness:
  "register_fullpaths example_deps example_context = Inr [''/'', ''p/:id'']
   \<and> (\<forall>fp. fp \<in> {''/'', ''p/:id''} \<longleftrightarrow>
         (\<exists>r \<in> set (Object_values (routes (config example_context))). contributes r
            \<and> (\<exists>lin. lineage example_deps (routes (config example_context)) r = Inr lin
                 \<and> fullpath example_deps lin = fp)))"
  using register_key_collection [of example_deps example_context "[''/'', ''p/:id'']"]
    example_fullpaths
  by simp

text \<open>
  Claim C5. The keys of the \<open>Params\<close> type alias are the full paths of the contributing
  routes in order of first discovery, each exactly once, however many routes share it.
\<close>

theorem register_keys_once_in_order:
  "register_fullpaths D ctx = Inr fps \<Longrightarrow>
     \<exists>lins. map (lineage D (routes (config ctx)))
               (filter contributes (Object_values (routes (config ctx)))) = map Inr lins
       \<and> fps = first_occurrences (map (fullpath D) lins)
       \<and> distinct fps
       \<and> set fps = set (map (fullpath D) lins)
       \<and> map key (members (alias_type (typeParams fps))) = fps
       \<and> register D ctx = Inr (Array_join (newline @ newline)
            [register_template ctx, Babel_generate D (typeParams fps)])"
proof -
  assume ok: "register_fullpaths D ctx = Inr fps"
  then obtain lins where
    lins: "map (lineage D (routes (config ctx)))
               (filter contributes (Object_values (routes (config ctx)))) = map Inr lins"
    and fps: "fps = first_occurrences (map (fullpath D) lins)"
    unfolding register_fullpaths_def by (auto dest: collect_fullpaths_order)
  have keys: "map key (members (alias_type (typeParams fps))) = fps"
    by (simp add: typeParams_def fullpath_property_def comp_def)
  have reg: "register D ctx = Inr (Array_join (newline @ newline)
            [register_template ctx, Babel_generate D (typeParams fps)])"
    using ok by (simp add: register_def)
  show ?thesis
    by (rule exI [of _ lins]) (simp add: lins fps [symmetric] keys reg, simp add: fps)
qed

theorem register_keys_once_in_order_witness:
  "register_fullpaths example_deps example_context = Inr [''/'', ''p/:id'']
   \<and> map key (members (alias_type (typeParams [''/'', ''p/:id'']))) = [''/'', ''p/:id'']
   \<and> (\<exists>lins. map (lineage example_deps (routes (config example_context)))
               (filter contributes (Object_values (routes (config example_context))))
             = map Inr lins
          \<and> [''/'', ''p/:id''] = first_occurrences (map (fullpath example_deps) lins))"
  using register_keys_once_in_order [OF example_fullpaths] example_fullpaths
  by blast

text \<open>
  Claim C6. The first call of \<open>writeAll\<close> removes the output directory recursively, which
  cannot fail and leaves nothing at or below it; a run that succeeds has then made, in this order,
  for every route a recursive \<open>mkdir\<close> of the parent of its declaration file and a write
  of that file, a write of \<open>+register.ts\<close> with the register text, and a write of
  \<open>+virtual.d.ts\<close> with the constant \<open>virtual\<close>.
\<close>

theorem writeAll_call_sequence:
  "fst (rmSync (getTypesDir D ctx) w0) = Inr ()
   \<and> (\<forall>p. prefix (getTypesDir D ctx) p \<longrightarrow> fs (snd (rmSync (getTypesDir D ctx) w0)) p = None)
   \<and> (\<exists>rest. fs_calls (snd (writeAll D ctx w)) = fs_calls w @ RmSync (getTypesDir D ctx) # rest)
   \<and> (fst (writeAll D ctx w) = Inr () \<longrightarrow>
        (\<exists>contents reg.
           map (generate D ctx) (Object_values (routes (config ctx))) = map Inr contents
         \<and> register D ctx = Inr reg
         \<and> fs_calls (snd (writeAll D ctx w)) = fs_calls w
             @ [RmSync (getTypesDir D ctx)]
             @ concat (map2 (\<lambda>route content.
                   [MkdirSync (Path_dirname (getTypesPath D ctx route)),
                    WriteFileSync (getTypesPath D ctx route) content])
                 (Object_values (routes (config ctx))) contents)
             @ [WriteFileSync (Path_join (getTypesDir D ctx) ''+register.ts'') reg,
                WriteFileSync (Path_join (getTypesDir D ctx) ''+virtual.d.ts'') virtual]))"
proof (intro conjI impI allI)
  show "fst (rmSync (getTypesDir D ctx) w0) = Inr ()"
    by (simp add: rmSync_def fs_call_io_def)
  show "fs (snd (rmSync (getTypesDir D ctx) w0)) p = None" if "prefix (getTypesDir D ctx) p" for p
    using that by (simp add: rmSync_def fs_call_io_def rm_tree_def)
next
  from writeAll_script [of D ctx] obtain rest out where
    "writeAll D ctx = script (RmSync (getTypesDir D ctx) # rest) out" by blast
  then have "fs_calls (snd (writeAll D ctx w))
      = fs_calls w @ RmSync (getTypesDir D ctx) # issued rest (rm_tree (getTypesDir D ctx) (fs w))"
    by (simp add: script_apply)
  then show "\<exists>rest. fs_calls (snd (writeAll D ctx w)) = fs_calls w @ RmSync (getTypesDir D ctx) # rest"
    by blast
next
  assume "fst (writeAll D ctx w) = Inr ()"
  from writeAll_success [OF this] obtain contents reg s' where
    gen: "map (generate D ctx) (Object_values (routes (config ctx))) = map Inr contents"
    and reg: "register D ctx = Inr reg"
    and w': "writeAll D ctx w
             = (Inr (), w\<lparr>fs := s', fs_calls := fs_calls w @ writeAll_calls D ctx contents reg\<rparr>)"
    by blast
  have "route_calls D ctx = (\<lambda>route content.
                   [MkdirSync (Path_dirname (getTypesPath D ctx route)),
                    WriteFileSync (getTypesPath D ctx route) content])"
    by (simp add: route_calls_def fun_eq_iff)
  then have "fs_calls (snd (writeAll D ctx w)) = fs_calls w
             @ [RmSync (getTypesDir D ctx)]
             @ concat (map2 (\<lambda>route content.
                   [MkdirSync (Path_dirname (getTypesPath D ctx route)),
                    WriteFileSync (getTypesPath D ctx route) content])
                 (Object_values (routes (config ctx))) contents)
             @ [WriteFileSync (Path_join (getTypesDir D ctx) ''+register.ts'') reg,
                WriteFileSync (Path_join (getTypesDir D ctx) ''+virtual.d.ts'') virtual]"
    by (simp add: w' writeAll_calls_def)
  with gen reg show "\<exists>contents reg.
           map (generate D ctx) (Object_values (routes (config ctx))) = map Inr contents
         \<and> register D ctx = Inr reg
         \<and> fs_calls (snd (writeAll D ctx w)) = fs_calls w
             @ [RmSync (getTypesDir D ctx)]
             @ concat (map2 (\<lambda>route content.
                   [MkdirSync (Path_dirname (getTypesPath D ctx route)),
                    WriteFileSync (getTypesPath D ctx route) content])
                 (Object_values (routes (config ctx))) contents)
             @ [WriteFileSync (Path_join (getTypesDir D ctx) ''+register.ts'') reg,
                WriteFileSync (Path_join (getTypesDir D ctx) ''+virtual.d.ts'') virtual]"
    by blast
qed

theorem writeAll_call_sequence_witness:
  "fst (writeAll example_deps example_context empty_world) = Inr ()
   \<and> (\<exists>reg. fs_calls (snd (writeAll example_deps example_context empty_world)) =
       [RmSync [''app'', ''types''],
        MkdirSync [''app'', ''types'', ''root''],
        WriteFileSync [''app'', ''types'', ''root'', ''t.ts''] ''// root'',
        MkdirSync [''app'', ''types'', ''lay''],
        WriteFileSync [''app'', ''types'', ''lay'', ''t.ts''] ''// lay'',
        MkdirSync [''app'', ''types'', ''a''],
        WriteFileSync [''app'', ''types'', ''a'', ''t.ts''] ''// a'',
        MkdirSync [''app'', ''types'', ''b''],
        WriteFileSync [''app'', ''types'', ''b'', ''t.ts''] ''// b'',
        WriteFileSync [''app'', ''types'', ''+register.ts''] reg,
        WriteFileSync [''app'', ''types'', ''+virtual.d.ts''] virtual])"
proof -
  from writeAll_call_sequence [of example_deps example_context empty_world empty_world]
    example_run_ok
  obtain contents reg where
    gen: "map (generate example_deps example_context)
            (Object_values (routes (config example_context))) = map Inr contents"
    and calls: "fs_calls (snd (writeAll example_deps example_context empty_world))
       = fs_calls empty_world
             @ [RmSync (getTypesDir example_deps example_context)]
             @ concat (map2 (\<lambda>route content.
                   [MkdirSync (Path_dirname (getTypesPath example_deps example_context route)),
                    WriteFileSync (getTypesPath example_deps example_context route) content])
                 (Object_values (routes (config example_context))) contents)
             @ [WriteFileSync (Path_join (getTypesDir example_deps example_context) ''+register.ts'') reg,
                WriteFileSync (Path_join (getTypesDir example_deps example_context) ''+virtual.d.ts'') virtual]"
    by blast
  from gen have contents: "contents = [''// root'', ''// lay'', ''// a'', ''// b'']"
    unfolding example_generate by (rule map_Inr_inject [symmetric])
  have "fs_calls (snd (writeAll example_deps example_context empty_world)) =
       [RmSync [''app'', ''types''],
        MkdirSync [''app'', ''types'', ''root''],
        WriteFileSync [''app'', ''types'', ''root'', ''t.ts''] ''// root'',
        MkdirSync [''app'', ''types'', ''lay''],
        WriteFileSync [''app'', ''types'', ''lay'', ''t.ts''] ''// lay'',
        MkdirSync [''app'', ''types'', ''a''],
        WriteFileSync [''app'', ''types'', ''a'', ''t.ts''] ''// a'',
        MkdirSync [''app'', ''types'', ''b''],
        WriteFileSync [''app'', ''types'', ''b'', ''t.ts''] ''// b'',
        WriteFileSync [''app'', ''types'', ''+register.ts''] reg,
        WriteFileSync [''app'', ''types'', ''+virtual.d.ts''] virtual]"
    unfolding calls contents
    by (simp add: example_deps_def example_context_def example_config_def Object_values_def
        Path_dirname_def Path_join_def empty_world_def)
  with example_run_ok show ?thesis by blast
qed

text \<open>
  Claim C7. If the initial \<open>getConfig\<close> fails, \<open>createContext\<close> throws an \<open>Error\<close> with
  that message, and \<open>run\<close> as well as \<open>watch\<close> end with it in an unchanged world: no
  file-system call, no file, no log entry.
\<close>

theorem initial_load_failure_aborts:
  "(getConfig (createConfigLoader D rootDir mode False) = Err e
      \<longrightarrow> createContext D rootDir False mode = Inl (Error e)
        \<and> run D rootDir mode w = (Inl (Error e), w))
   \<and> (getConfig (createConfigLoader D rootDir mode True) = Err e
      \<longrightarrow> createContext D rootDir True mode = Inl (Error e)
        \<and> watch D rootDir mode lg w = (Inl (Error e), w))"
  by (simp add: createContext_def run_def watch_def lift_io_def throw_io_def bind_io_def)

theorem initial_load_failure_aborts_witness:
  "getConfig (createConfigLoader example_deps ''app'' ''bad'' False) = Err ''no config''
   \<and> getConfig (createConfigLoader example_deps ''app'' ''bad'' True) = Err ''no config''
   \<and> run example_deps ''app'' ''bad'' empty_world = (Inl (Error ''no config''), empty_world)
   \<and> watch example_deps ''app'' ''bad'' (Some Logger) empty_world
        = (Inl (Error ''no config''), empty_world)"
  using initial_load_failure_aborts [of example_deps "''app''" "''bad''" "''no config''"
      empty_world "Some Logger"]
  by (simp add: example_deps_def)

text \<open>
  Claim C8. \<open>parse\<close> is a total function on strings, and the keys of its result are exactly
  the names of the dynamic segments and \<open>*\<close> for a splat segment, each once; a segment
  that is neither dynamic nor a splat (static or empty) adds nothing.
\<close>

theorem parse_total_keys:
  "set (map fst (parse s))
     = {param_name seg |seg. seg \<in> set (String_split (CHR ''/'') s) \<and> is_dynamic seg}
       \<union> {''*'' |seg. seg \<in> set (String_split (CHR ''/'') s) \<and> is_splat seg}
   \<and> distinct (map fst (parse s))
   \<and> (\<forall>seg acc. \<not> is_dynamic seg \<and> \<not> is_splat seg \<longrightarrow> parse_segment acc seg = acc)"
proof (intro conjI allI impI)
  show "set (map fst (parse s))
     = {param_name seg |seg. seg \<in> set (String_split (CHR ''/'') s) \<and> is_dynamic seg}
       \<union> {''*'' |seg. seg \<in> set (String_split (CHR ''/'') s) \<and> is_splat seg}"
    unfolding parse_def set_map keys_foldl_parse_segment segment_decl_names by simp
  show "distinct (map fst (parse s))"
    unfolding parse_def by (rule distinct_foldl_parse_segment) simp
  show "parse_segment acc seg = acc" if "\<not> is_dynamic seg \<and> \<not> is_splat seg" for seg acc
    using that by (simp add: parse_segment_def segment_decl_def)
qed

theorem parse_total_keys_witness:
  "set (map fst (parse ''/a/:id?/b/*'')) = {''id'', ''*''}"
  using parse_total_keys [of "''/a/:id?/b/*''"]
  by (simp add: parse_def parse_segment_def segment_decl_def is_dynamic_def is_splat_def
      is_optional_def param_name_def)

text \<open>
  Claim C9. When a name is declared more than once, the required status in the result of
  \<open>parse\<close> is that of the last segment declaring it, and the name has one entry; for
  \<open>/a/:id?/b/:id\<close> the result maps \<open>id\<close> to required.
\<close>

theorem parse_last_occurrence_wins:
  "(String_split (CHR ''/'') s = pre @ seg # post
      \<and> segment_decl seg = Some (n, b)
      \<and> (\<forall>seg' \<in> set post. \<forall>b'. segment_decl seg' \<noteq> Some (n, b'))
     \<longrightarrow> map_of (parse s) n = Some b \<and> length (filter (\<lambda>kv. fst kv = n) (parse s)) = 1)
   \<and> parse ''/a/:id?/b/:id'' = [(''id'', True)]"
proof (intro conjI impI)
  assume A: "String_split (CHR ''/'') s = pre @ seg # post
      \<and> segment_decl seg = Some (n, b)
      \<and> (\<forall>seg' \<in> set post. \<forall>b'. segment_decl seg' \<noteq> Some (n, b'))"
  then have "map_of (parse s) n = map_of (parse_segment (foldl parse_segment [] pre) seg) n"
    by (simp add: parse_def map_of_foldl_undeclared)
  also have "\<dots> = Some b" using A by (simp add: map_of_parse_segment)
  finally show "map_of (parse s) n = Some b" .
  have d: "distinct (map fst (parse s))"
    unfolding parse_def by (rule distinct_foldl_parse_segment) simp
  have "n \<in> fst ` set (parse s)"
    using \<open>map_of (parse s) n = Some b\<close> by (metis map_of_eq_None_iff option.distinct(1))
  then show "length (filter (\<lambda>kv. fst kv = n) (parse s)) = 1"
    using d by (rule one_entry_per_key [rotated])
next
  show "parse ''/a/:id?/b/:id'' = [(''id'', True)]"
    by (simp add: parse_def parse_segment_def segment_decl_def is_dynamic_def is_splat_def
      is_optional_def param_name_def)
qed

theorem parse_last_occurrence_wins_witness:
  "String_split (CHR ''/'') ''/a/:id?/b/:id'' = ([] # [''a'', '':id?'', ''b'']) @ '':id'' # []
   \<and> segment_decl '':id?'' = Some (''id'', False)
   \<and> segment_decl '':id'' = Some (''id'', True)
   \<and> map_of (parse ''/a/:id?/b/:id'') ''id'' = Some True"
  using parse_last_occurrence_wins [of "''/a/:id?/b/:id''" "[] # [''a'', '':id?'', ''b'']"
      "'':id''" "[]" "''id''" True]
  by (simp add: segment_decl_def is_dynamic_def is_optional_def param_name_def)

text \<open>
  Claim C10. On every successful reload the handler assigns the new configuration to
  \<open>ctx.config\<close> before it looks at the change flags: the snapshot is replaced whatever
  the flags are and whatever \<open>writeAll\<close> does, also when nothing is written.
\<close>

theorem successful_reload_replaces_snapshot:
  "result ev = Ok v \<Longrightarrow>
     fst (snd (onChange D lg ev ctx w)) = ctx\<lparr>config := v\<rparr>
     \<and> config (fst (snd (onChange D lg ev ctx w))) = v
     \<and> (\<not> configChanged ev \<and> \<not> routeConfigChanged ev
          \<longrightarrow> onChange D lg ev ctx w = (Inr (), ctx\<lparr>config := v\<rparr>, w))"
  by (simp add: onChange_def Let_def split: prod.splits)

theorem successful_reload_replaces_snapshot_witness:
  "result quiet_event = Ok changed_config
   \<and> config (fst (snd (onChange example_deps None quiet_event example_context stale_world)))
       = changed_config
   \<and> changed_config \<noteq> config example_context
   \<and> snd (snd (onChange example_deps None quiet_event example_context stale_world)) = stale_world"
  using successful_reload_replaces_snapshot [of quiet_event changed_config example_deps None
      example_context stale_world]
  by (simp add: quiet_event_def changed_config_def example_context_def example_config_def)

end
